theory Spec2Isabelle
  imports Main "HOL-Library.Log_Nat"
begin

section \<open>Numbers\<close>

text \<open>
  A value of the Number type is a double: \<^verbatim>\<open>NaN\<close>, an infinity, or a finite double,
  given by its rational value (the two zeros are one value here: no operation of the
  planner tells them apart). \<open>roundDouble\<close> maps a rational to the nearest double, ties
  to the even significand: 53 bits of significand, the exponent of the leading bit
  between -1022 and 1023, a rational at or beyond \<open>2^1024 - 2^970\<close> in magnitude going to
  an infinity. \<open>numberAdd\<close> and \<open>numberSubtract\<close> are \<^verbatim>\<open>+\<close> and \<^verbatim>\<open>-\<close> on two numbers.
  \<open>Num q\<close> is a value of the Number type when \<open>roundDouble q = Num q\<close>; every integer
  of magnitude at most \<open>2^53\<close> is one (lemma \<open>double_of_int\<close>).
\<close>

datatype number = NaN | PosInfinity | NegInfinity | Num rat

definition pow2 :: "int \<Rightarrow> rat" where
  "pow2 e = (if 0 \<le> e then 2 ^ nat e else 1 / 2 ^ nat (- e))"

text \<open>The exponent of the leading bit of a positive rational.\<close>

definition floorLog2 :: "rat \<Rightarrow> int" where
  "floorLog2 x =
     (let (p, q) = quotient_of x; e = bitlen p - bitlen q
      in if pow2 e \<le> x then e else e - 1)"

definition roundHalfEven :: "rat \<Rightarrow> int" where
  "roundHalfEven x =
     (let f = \<lfloor>x\<rfloor>; d = x - of_int f
      in if d < 1 / 2 then f else if 1 / 2 < d then f + 1 else if even f then f else f + 1)"

definition roundDouble :: "rat \<Rightarrow> number" where
  "roundDouble x =
     (if x = 0 then Num 0
      else let a = \<bar>x\<bar>;
               e = max (floorLog2 a) (- 1022);
               q = pow2 (e - 52);
               y = of_int (roundHalfEven (a / q)) * q
           in if pow2 1024 \<le> y then (if 0 < x then PosInfinity else NegInfinity)
              else Num (if 0 < x then y else - y))"

fun numberNegate :: "number \<Rightarrow> number" where
  "numberNegate NaN = NaN"
| "numberNegate PosInfinity = NegInfinity"
| "numberNegate NegInfinity = PosInfinity"
| "numberNegate (Num a) = Num (- a)"

fun numberAdd :: "number \<Rightarrow> number \<Rightarrow> number" where
  "numberAdd NaN y = NaN"
| "numberAdd x NaN = NaN"
| "numberAdd PosInfinity NegInfinity = NaN"
| "numberAdd NegInfinity PosInfinity = NaN"
| "numberAdd PosInfinity y = PosInfinity"
| "numberAdd NegInfinity y = NegInfinity"
| "numberAdd x PosInfinity = PosInfinity"
| "numberAdd x NegInfinity = NegInfinity"
| "numberAdd (Num a) (Num b) = roundDouble (a + b)"

definition numberSubtract :: "number \<Rightarrow> number \<Rightarrow> number" where
  "numberSubtract x y = numberAdd x (numberNegate y)"

section \<open>Data model\<close>

text \<open>
  The merge planner of \<^verbatim>\<open>mergeLogic\<close>: \<^verbatim>\<open>calculateMerges\<close> groups interval records by
  their joined group keys, sorts each group by start time and folds every run of
  continuous records into one merge proposal.

  Numbers. \<^verbatim>\<open>start\<close> and \<^verbatim>\<open>end\<close> are millisecond timestamps; the caller drops every
  record whose start or end is falsy (\<^verbatim>\<open>0\<close>, \<^verbatim>\<open>NaN\<close>, \<^verbatim>\<open>undefined\<close>) before the planner
  runs. They are modelled as mathematical integers, on which the double arithmetic of
  the source (\<^verbatim>\<open>-\<close>, \<^verbatim>\<open>Math.abs\<close>, \<^verbatim>\<open>Math.max\<close>, \<^verbatim>\<open><\<close>) is exact below \<open>2^53\<close>.
  A \<^verbatim>\<open>duration\<close> is optional and is any number: the caller computes it with
  \<^verbatim>\<open>Number(...)\<close>, which yields \<^verbatim>\<open>NaN\<close> for a cell that holds no number. The two
  figures of a validation are numbers, computed in double arithmetic.
\<close>

record IRecord =
  id' :: string
  start :: int
  end' :: int
  groupKeys :: "string list"
  duration :: "number option"

record Validation =
  originalSum :: number
  newDuration :: number
  isValid :: bool

record MergeProposal =
  baseRecordId :: string
  newStart :: int
  newEnd :: int
  recordsToDelete :: "string list"
  originalRecords :: "IRecord list"
  validation :: "Validation option"

datatype error = TypeError

section \<open>Host library\<close>

text \<open>\<^verbatim>\<open>Array.prototype.join\<close> on an array of strings.\<close>

fun join :: "string \<Rightarrow> string list \<Rightarrow> string" where
  "join sep [] = []"
| "join sep [x] = x"
| "join sep (x # y # ys) = x @ sep @ join sep (y # ys)"

text \<open>
  \<^verbatim>\<open>new Date(t).toDateString()\<close> prints the local calendar date of the instant \<open>t\<close>.
  Two such strings are equal exactly when the local dates are, so the string is
  modelled by the number of the local day. The host's time zone is the parameter
  \<open>tz\<close>: the offset of local time from UTC, in milliseconds, in force at an instant.
  A time value beyond \<open>8.64e15\<close> in magnitude is an invalid date, printed as
  \<^verbatim>\<open>Invalid Date\<close> whatever the instant: the value \<open>None\<close>.
\<close>

definition toDateString :: "(int \<Rightarrow> int) \<Rightarrow> int \<Rightarrow> int option" where
  "toDateString tz t =
     (if \<bar>t\<bar> \<le> 8640000000000000 then Some ((t + tz t) div 86400000) else None)"

text \<open>
  The groups are the own properties of a plain object created by \<^verbatim>\<open>{}\<close>, kept here in
  the order of their creation. A read \<^verbatim>\<open>groups[key]\<close> that finds no own property falls
  through to \<^verbatim>\<open>Object.prototype\<close>, whose properties are all truthy and none of which
  has a \<^verbatim>\<open>push\<close> method.
\<close>

type_synonym groups = "(string \<times> IRecord list) list"

definition protoKeys :: "string list" where
  "protoKeys =
     [''constructor'', ''__defineGetter__'', ''__defineSetter__'', ''hasOwnProperty'',
      ''__lookupGetter__'', ''__lookupSetter__'', ''isPrototypeOf'',
      ''propertyIsEnumerable'', ''toString'', ''valueOf'', ''__proto__'',
      ''toLocaleString'']"

datatype property = Undefined | Array "IRecord list" | Inherited

definition getProperty :: "groups \<Rightarrow> string \<Rightarrow> property" where
  "getProperty groups key =
     (case map_of groups key of
        Some rs \<Rightarrow> Array rs
      | None \<Rightarrow> if key \<in> set protoKeys then Inherited else Undefined)"

fun setProperty :: "groups \<Rightarrow> string \<Rightarrow> IRecord list \<Rightarrow> groups" where
  "setProperty [] key v = [(key, v)]"
| "setProperty ((k, rs) # groups) key v =
     (if k = key then (k, v) # groups else (k, rs) # setProperty groups key v)"

text \<open>
  \<^verbatim>\<open>Object.values\<close> lists the own properties whose key is an array index (a canonical
  decimal numeral below \<open>2^32 - 1\<close>) first, in ascending numeric order, and the other
  string keys after them in the order of their creation.
\<close>

definition isDigit :: "char \<Rightarrow> bool" where
  "isDigit c = (c \<in> set ''0123456789'')"

definition digitsValue :: "string \<Rightarrow> nat" where
  "digitsValue s = foldl (\<lambda>n c. 10 * n + (of_char c - 48)) 0 s"

definition arrayIndex :: "string \<Rightarrow> nat option" where
  "arrayIndex s =
     (if s \<noteq> [] \<and> list_all isDigit s \<and> (s = ''0'' \<or> hd s \<noteq> CHR ''0'')
         \<and> digitsValue s < 4294967295
      then Some (digitsValue s) else None)"

definition objectValues :: "groups \<Rightarrow> IRecord list list" where
  "objectValues groups =
     map snd (sort_key (\<lambda>(k, v). case arrayIndex k of Some n \<Rightarrow> n | None \<Rightarrow> 0)
                (filter (\<lambda>(k, v). arrayIndex k \<noteq> None) groups))
     @ map snd (filter (\<lambda>(k, v). arrayIndex k = None) groups)"

section \<open>The planner\<close>

subsection \<open>Grouping\<close>

text \<open>
  The body of \<^verbatim>\<open>records.forEach\<close>: create the bucket when the read is falsy, then push.
  The push raises a \<^verbatim>\<open>TypeError\<close> when the read found an inherited property.
\<close>

definition groupKey :: "IRecord \<Rightarrow> string" where
  "groupKey r = join ''|||'' (groupKeys r)"

definition groupRecord :: "groups \<Rightarrow> IRecord \<Rightarrow> error + groups" where
  "groupRecord groups r =
     (let key = groupKey r;
          groups1 = (if getProperty groups key = Undefined
                     then setProperty groups key [] else groups)
      in case getProperty groups1 key of
           Array rs \<Rightarrow> Inr (setProperty groups1 key (rs @ [r]))
         | _ \<Rightarrow> Inl TypeError)"

fun groupAll :: "groups \<Rightarrow> IRecord list \<Rightarrow> error + groups" where
  "groupAll groups [] = Inr groups"
| "groupAll groups (r # rs) =
     (case groupRecord groups r of
        Inl e \<Rightarrow> Inl e
      | Inr groups1 \<Rightarrow> groupAll groups1 rs)"

subsection \<open>Run building\<close>

definition newProposal :: "IRecord \<Rightarrow> MergeProposal" where
  "newProposal record =
     \<lparr>baseRecordId = id' record, newStart = start record, newEnd = end' record,
      recordsToDelete = [], originalRecords = [record], validation = None\<rparr>"

definition merge :: "MergeProposal \<Rightarrow> IRecord \<Rightarrow> MergeProposal" where
  "merge currentProposal record =
     currentProposal
       \<lparr>newEnd := max (newEnd currentProposal) (end' record),
        recordsToDelete := recordsToDelete currentProposal @ [id' record],
        originalRecords := originalRecords currentProposal @ [record]\<rparr>"

definition isSequential :: "MergeProposal \<Rightarrow> IRecord \<Rightarrow> bool" where
  "isSequential currentProposal record =
     (\<bar>start record - newEnd currentProposal\<bar> < 1000)"

definition isSameDay :: "(int \<Rightarrow> int) \<Rightarrow> MergeProposal \<Rightarrow> IRecord \<Rightarrow> bool" where
  "isSameDay tz currentProposal record =
     (toDateString tz (newStart currentProposal) = toDateString tz (start record))"

text \<open>
  \<^verbatim>\<open>r.duration || 0\<close>: the falsy durations (\<^verbatim>\<open>undefined\<close>, \<^verbatim>\<open>NaN\<close> and zero) count as
  \<open>0\<close>, every other duration as itself.
\<close>

fun durationOrZero :: "number option \<Rightarrow> number" where
  "durationOrZero None = Num 0"
| "durationOrZero (Some NaN) = Num 0"
| "durationOrZero (Some d) = d"

definition finalizeProposal :: "MergeProposal \<Rightarrow> MergeProposal" where
  "finalizeProposal p =
     (let originalSum =
            foldl (\<lambda>sum r. numberAdd sum (durationOrZero (duration r))) (Num 0)
              (originalRecords p);
          newDurationMs = numberSubtract (Num (of_int (newEnd p))) (Num (of_int (newStart p)));
          hasDuration = list_all (\<lambda>r. duration r \<noteq> None) (originalRecords p)
      in if hasDuration
         then p\<lparr>validation :=
                  Some \<lparr>originalSum = originalSum, newDuration = newDurationMs, isValid = True\<rparr>\<rparr>
         else p)"

text \<open>
  The state of the loop over a sorted group is the list of proposals pushed so far and
  the current proposal (\<open>None\<close> for \<^verbatim>\<open>null\<close>). \<open>loopBody\<close> is one iteration.
\<close>

type_synonym loopState = "MergeProposal list \<times> MergeProposal option"

fun loopBody :: "(int \<Rightarrow> int) \<Rightarrow> loopState \<Rightarrow> IRecord \<Rightarrow> loopState" where
  "loopBody tz (proposals, None) record = (proposals, Some (newProposal record))"
| "loopBody tz (proposals, Some currentProposal) record =
     (if isSequential currentProposal record \<and> isSameDay tz currentProposal record
      then (proposals, Some (merge currentProposal record))
      else ((if length (recordsToDelete currentProposal) > 0
             then proposals @ [finalizeProposal currentProposal] else proposals),
            Some (newProposal record)))"

fun pushLast :: "loopState \<Rightarrow> MergeProposal list" where
  "pushLast (proposals, None) = proposals"
| "pushLast (proposals, Some currentProposal) =
     (if length (recordsToDelete currentProposal) > 0
      then proposals @ [finalizeProposal currentProposal] else proposals)"

text \<open>
  The body of \<^verbatim>\<open>Object.values(groups).forEach\<close>, on the proposals pushed so far.
  \<^verbatim>\<open>Array.prototype.sort\<close> is stable, and so is \<open>sort_key\<close>: records of equal start
  keep their input order. Every proposal is pushed right after its finalization and
  the variable is then bound to a fresh object, so no pushed proposal changes later.
\<close>

definition processGroup ::
    "(int \<Rightarrow> int) \<Rightarrow> MergeProposal list \<Rightarrow> IRecord list \<Rightarrow> MergeProposal list" where
  "processGroup tz proposals groupRecords =
     (let sorted = sort_key start groupRecords
      in if length sorted = 0 then proposals
         else pushLast (foldl (loopBody tz) (proposals, None) sorted))"

definition calculateMerges :: "(int \<Rightarrow> int) \<Rightarrow> IRecord list \<Rightarrow> error + MergeProposal list" where
  "calculateMerges tz records =
     (case groupAll [] records of
        Inl e \<Rightarrow> Inl e
      | Inr groups \<Rightarrow> Inr (foldl (processGroup tz) [] (objectValues groups)))"

subsection \<open>The variant without the same-day check\<close>

text \<open>
  The earlier \<^verbatim>\<open>calculateMerges\<close> of the same module merges on the numeric tolerance
  alone and attaches no validation; its records carry no duration, which it never reads.
\<close>

fun loopBody0 :: "loopState \<Rightarrow> IRecord \<Rightarrow> loopState" where
  "loopBody0 (proposals, None) record = (proposals, Some (newProposal record))"
| "loopBody0 (proposals, Some currentProposal) record =
     (if \<bar>start record - newEnd currentProposal\<bar> < 1000
      then (proposals, Some (merge currentProposal record))
      else ((if length (recordsToDelete currentProposal) > 0
             then proposals @ [currentProposal] else proposals),
            Some (newProposal record)))"

fun pushLast0 :: "loopState \<Rightarrow> MergeProposal list" where
  "pushLast0 (proposals, None) = proposals"
| "pushLast0 (proposals, Some currentProposal) =
     (if length (recordsToDelete currentProposal) > 0
      then proposals @ [currentProposal] else proposals)"

definition processGroup0 :: "MergeProposal list \<Rightarrow> IRecord list \<Rightarrow> MergeProposal list" where
  "processGroup0 proposals groupRecords =
     (let sorted = sort_key start groupRecords
      in if length sorted = 0 then proposals
         else pushLast0 (foldl loopBody0 (proposals, None) sorted))"

definition calculateMerges0 :: "IRecord list \<Rightarrow> error + MergeProposal list" where
  "calculateMerges0 records =
     (case groupAll [] records of
        Inl e \<Rightarrow> Inl e
      | Inr groups \<Rightarrow> Inr (foldl processGroup0 [] (objectValues groups)))"

section \<open>Notions used in the statements\<close>

text \<open>
  Two records are continuous when the second starts within the tolerance of the first's
  end and on the local day of the first's start: the test that the loop applies to a
  record against a run holding the other record alone (lemma \<open>continuous_loop\<close>).
  A list of records is isolated when no two of its records, taken in either order, are
  continuous (lemma \<open>isolated_nth\<close>).
\<close>

definition continuous :: "(int \<Rightarrow> int) \<Rightarrow> IRecord \<Rightarrow> IRecord \<Rightarrow> bool" where
  "continuous tz a b \<longleftrightarrow>
     \<bar>start b - end' a\<bar> < 1000 \<and> toDateString tz (start a) = toDateString tz (start b)"

definition isolated :: "(int \<Rightarrow> int) \<Rightarrow> IRecord list \<Rightarrow> bool" where
  "isolated tz g = sorted_wrt (\<lambda>a b. \<not> continuous tz a b \<and> \<not> continuous tz b a) g"

text \<open>
  The arithmetic sum of a list of numbers, as the Number type computes it: added one by
  one to \<open>0\<close>, from the left.
\<close>

definition arithmeticSum :: "number list \<Rightarrow> number" where
  "arithmeticSum ds = foldl numberAdd (Num 0) ds"

text \<open>The run of exactly two records, before finalization.\<close>

definition mergedPair :: "IRecord \<Rightarrow> IRecord \<Rightarrow> MergeProposal" where
  "mergedPair r1 r2 =
     \<lparr>baseRecordId = id' r1, newStart = start r1, newEnd = max (end' r1) (end' r2),
      recordsToDelete = [id' r2], originalRecords = [r1, r2], validation = None\<rparr>"

text \<open>
  The invariant of the current proposal while the loop runs over a sorted group, and
  the proposals that the loop pushes: finalized current proposals with a deletion,
  built from records of the set \<open>S\<close>.
\<close>

definition openRun :: "MergeProposal \<Rightarrow> bool" where
  "openRun c \<longleftrightarrow>
     originalRecords c \<noteq> [] \<and>
     baseRecordId c = id' (hd (originalRecords c)) \<and>
     newStart c = start (hd (originalRecords c)) \<and>
     newEnd c = Max (end' ` set (originalRecords c)) \<and>
     recordsToDelete c = map id' (tl (originalRecords c)) \<and>
     sorted (map start (originalRecords c)) \<and>
     validation c = None"

definition emitted :: "IRecord set \<Rightarrow> MergeProposal \<Rightarrow> bool" where
  "emitted S p \<longleftrightarrow>
     (\<exists>c. openRun c \<and> set (originalRecords c) \<subseteq> S \<and> recordsToDelete c \<noteq> []
          \<and> p = finalizeProposal c)"

section \<open>Concrete inputs\<close>

text \<open>A host in the UTC zone.\<close>

definition utc :: "int \<Rightarrow> int" where
  "utc t = 0"

text \<open>
  Group \<open>X\<close>: \<open>A\<close> and \<open>B\<close> are 500 ms apart, \<open>C\<close> is far from both. Group \<open>Y\<close>: \<open>D\<close>
  and \<open>E\<close> are far apart.
\<close>

definition recA :: IRecord where
  "recA = \<lparr>id' = ''A'', start = 600000, end' = 900000, groupKeys = [''X''],
            duration = Some (Num 300000)\<rparr>"

definition recB :: IRecord where
  "recB = \<lparr>id' = ''B'', start = 900500, end' = 1200000, groupKeys = [''X''],
            duration = Some (Num 299500)\<rparr>"

definition recC :: IRecord where
  "recC = \<lparr>id' = ''C'', start = 5000000, end' = 5300000, groupKeys = [''X''],
            duration = None\<rparr>"

definition recD :: IRecord where
  "recD = \<lparr>id' = ''D'', start = 600000, end' = 900000, groupKeys = [''Y''],
            duration = None\<rparr>"

definition recE :: IRecord where
  "recE = \<lparr>id' = ''E'', start = 2000000, end' = 2300000, groupKeys = [''Y''],
            duration = None\<rparr>"

definition example :: "IRecord list" where
  "example = [recC, recD, recA, recE, recB]"

definition valAB :: Validation where
  "valAB = \<lparr>originalSum = Num 599500, newDuration = Num 600000, isValid = True\<rparr>"

definition propAB :: MergeProposal where
  "propAB = \<lparr>baseRecordId = ''A'', newStart = 600000, newEnd = 1200000,
             recordsToDelete = [''B''], originalRecords = [recA, recB],
             validation = Some valAB\<rparr>"

text \<open>
  \<open>T2\<close> starts 999 ms after the end of \<open>T1\<close>, on the same day; their one group key
  is \<^verbatim>\<open>constructor\<close>.
\<close>

definition recT1 :: IRecord where
  "recT1 = \<lparr>id' = ''T1'', start = 1000, end' = 5000, groupKeys = [''constructor''],
             duration = None\<rparr>"

definition recT2 :: IRecord where
  "recT2 = \<lparr>id' = ''T2'', start = 5999, end' = 9000, groupKeys = [''constructor''],
             duration = None\<rparr>"

text \<open>
  \<open>F\<close>, of group \<open>Y\<close>, starts 200 ms after the end of \<open>A\<close> and ends before the start
  of \<open>B\<close>.
\<close>

definition recF :: IRecord where
  "recF = \<lparr>id' = ''F'', start = 900200, end' = 900400, groupKeys = [''Y''],
            duration = None\<rparr>"

definition adjacent :: "IRecord list" where
  "adjacent = [recA, recF, recB]"

text \<open>
  \<open>V1\<close> and \<open>V2\<close> touch; the duration of \<open>V1\<close> is \<^verbatim>\<open>NaN\<close>, that of \<open>V2\<close> is 7.
\<close>

definition recV1 :: IRecord where
  "recV1 = \<lparr>id' = ''V1'', start = 1000, end' = 2000, groupKeys = [''X''],
             duration = Some NaN\<rparr>"

definition recV2 :: IRecord where
  "recV2 = \<lparr>id' = ''V2'', start = 2000, end' = 3000, groupKeys = [''X''],
             duration = Some (Num 7)\<rparr>"

definition valV :: Validation where
  "valV = \<lparr>originalSum = Num 7, newDuration = Num 2000, isValid = True\<rparr>"

definition propV :: MergeProposal where
  "propV = \<lparr>baseRecordId = ''V1'', newStart = 1000, newEnd = 3000,
            recordsToDelete = [''V2''], originalRecords = [recV1, recV2],
            validation = Some valV\<rparr>"

text \<open>
  Two records whose group keys differ in both positions and join to the same key
  \<^verbatim>\<open>a||||b\<close>.
\<close>

definition recK1 :: IRecord where
  "recK1 = \<lparr>id' = ''K1'', start = 1000, end' = 2000, groupKeys = [''a|'', ''b''],
             duration = None\<rparr>"

definition recK2 :: IRecord where
  "recK2 = \<lparr>id' = ''K2'', start = 2000, end' = 3000, groupKeys = [''a'', ''|b''],
             duration = None\<rparr>"

text \<open>\<open>S\<close> starts 500 ms before the end of \<open>A\<close>, \<open>O\<close> starts 200 s before it.\<close>

definition recS :: IRecord where
  "recS = \<lparr>id' = ''S'', start = 899500, end' = 1000000, groupKeys = [''X''],
            duration = None\<rparr>"

definition recO :: IRecord where
  "recO = \<lparr>id' = ''O'', start = 700000, end' = 800000, groupKeys = [''X''],
            duration = None\<rparr>"

text \<open>
  On the first two days of the epoch, in UTC: \<open>M1\<close> runs from 23:59:59.500 to 00:30:00
  of the next day, \<open>N1\<close> from 23:59:59.500 to midnight, and \<open>M2\<close> starts at 00:00:00.500
  of the next day.
\<close>

definition recM1 :: IRecord where
  "recM1 = \<lparr>id' = ''M1'', start = 86399500, end' = 88200000, groupKeys = [''X''],
             duration = None\<rparr>"

definition recN1 :: IRecord where
  "recN1 = \<lparr>id' = ''N1'', start = 86399500, end' = 86400000, groupKeys = [''X''],
             duration = None\<rparr>"

definition recM2 :: IRecord where
  "recM2 = \<lparr>id' = ''M2'', start = 86400500, end' = 90000000, groupKeys = [''X''],
             duration = None\<rparr>"

section \<open>Double arithmetic on integers\<close>

lemma pow2_powi: "pow2 e = 2 powi e"
  by (simp add: pow2_def power_int_def inverse_eq_divide power_one_over flip: power_inverse)

lemma pow2_pos: "0 < pow2 e"
  by (simp add: pow2_powi)

lemma pow2_add: "pow2 (a + b) = pow2 a * pow2 b"
  by (simp add: pow2_powi power_int_add)

lemma pow2_mono: "a \<le> b \<Longrightarrow> pow2 a \<le> pow2 b"
  by (simp add: pow2_powi power_int_increasing)

lemma pow2_strict_mono: "a < b \<Longrightarrow> pow2 a < pow2 b"
  by (simp add: pow2_powi power_int_strict_increasing)

lemma pow2_less_cancel: "pow2 a < pow2 b \<Longrightarrow> a < b"
  using pow2_mono [of b a] by (cases "a < b") auto

lemma pow2_nat: "0 \<le> e \<Longrightarrow> pow2 e = 2 ^ nat e"
  by (simp add: pow2_def)

lemma bitlen_pow2_bounds:
  assumes "0 < n"
  shows "pow2 (bitlen n - 1) \<le> of_int n" and "of_int n < pow2 (bitlen n)"
proof -
  have l: "1 \<le> bitlen n" using assms by (simp add: bitlen_alt_def)
  have "(2::int) ^ nat (bitlen n - 1) \<le> n" and "n < (2::int) ^ nat (bitlen n)"
    using bitlen_bounds [OF assms] by simp_all
  then have "rat_of_int (2 ^ nat (bitlen n - 1)) \<le> of_int n"
    and "rat_of_int n < of_int (2 ^ nat (bitlen n))"
    by (simp_all only: of_int_le_iff of_int_less_iff)
  then show "pow2 (bitlen n - 1) \<le> of_int n" and "of_int n < pow2 (bitlen n)"
    using l by (simp_all add: pow2_nat)
qed

lemma floorLog2_bounds:
  assumes "0 < x"
  shows "pow2 (floorLog2 x) \<le> x" and "x < pow2 (floorLog2 x + 1)"
proof -
  obtain p q where pq: "quotient_of x = (p, q)" by force
  have q: "0 < q" using quotient_of_denom_pos [OF pq] .
  have x: "x = of_int p / of_int q" using quotient_of_div [OF pq] .
  have p: "0 < p" using assms q x by (simp add: zero_less_divide_iff)
  let ?e = "bitlen p - bitlen q"
  note bp = bitlen_pow2_bounds [OF p]
  note bq = bitlen_pow2_bounds [OF q]
  have "of_int p < pow2 (?e + 1) * pow2 (bitlen q - 1)"
    using bp(2) by (simp flip: pow2_add)
  also have "\<dots> \<le> pow2 (?e + 1) * of_int q"
    using bq(1) pow2_pos [of "?e + 1"] by (simp only: mult_le_cancel_left_pos)
  finally have up: "x < pow2 (?e + 1)"
    using q by (simp add: x pos_divide_less_eq)
  have "pow2 (?e - 1) * of_int q \<le> pow2 (?e - 1) * pow2 (bitlen q)"
    using bq(2) pow2_pos [of "?e - 1"] by (simp only: mult_le_cancel_left_pos less_imp_le)
  also have "\<dots> = pow2 (bitlen p - 1)"
    by (simp flip: pow2_add)
  also have "\<dots> \<le> of_int p" using bp(1) .
  finally have lo: "pow2 (?e - 1) \<le> x"
    using q by (simp add: x pos_le_divide_eq)
  have fl: "floorLog2 x = (if pow2 ?e \<le> x then ?e else ?e - 1)"
    by (simp add: floorLog2_def pq Let_def)
  show "pow2 (floorLog2 x) \<le> x"
    using lo by (simp add: fl)
  show "x < pow2 (floorLog2 x + 1)"
    using up by (auto simp add: fl)
qed

lemma roundHalfEven_int: "roundHalfEven (of_int n) = n"
  by (simp add: roundHalfEven_def Let_def)

text \<open>Every integer of magnitude at most \<open>2^53\<close> is a double.\<close>

lemma double_of_int_pos:
  assumes "0 < n" "n \<le> 2 ^ 53"
  shows "roundDouble (of_int n) = Num (of_int n)"
proof -
  let ?x = "rat_of_int n"
  let ?e = "floorLog2 ?x"
  have x: "0 < ?x" using assms(1) by simp
  note b = floorLog2_bounds [OF x]
  have "pow2 0 \<le> ?x" using assms(1) by (simp add: pow2_def)
  also note b(2)
  finally have e0: "0 \<le> ?e" using pow2_less_cancel [of 0 "?e + 1"] by simp
  have "?x \<le> pow2 53" using assms(2) by (simp add: pow2_def)
  with b(1) have "pow2 ?e \<le> pow2 53" by simp
  then have e53: "?e \<le> 53" using pow2_strict_mono [of 53 ?e] by (cases "?e \<le> 53") auto
  have m: "max ?e (- 1022) = ?e" using e0 by simp
  have "\<exists>k. ?x / pow2 (?e - 52) = of_int k"
  proof (cases "?e \<le> 52")
    case True
    have "?x / pow2 (?e - 52) = ?x * pow2 (52 - ?e)"
      using pow2_add [of "?e - 52" "52 - ?e"] pow2_pos [of "?e - 52"]
      by (simp add: field_simps pow2_def)
    also have "\<dots> = of_int (n * 2 ^ nat (52 - ?e))"
      using True by (simp add: pow2_nat)
    finally show ?thesis by blast
  next
    case False
    then have e: "?e = 53" using e53 by simp
    have "pow2 53 \<le> ?x" using b(1) e by simp
    with \<open>?x \<le> pow2 53\<close> have x53: "?x = pow2 53" by simp
    have d: "pow2 (?e - 52) = 2" by (simp only: e) (simp add: pow2_def)
    have "?x / pow2 (?e - 52) = ?x / 2" by (simp only: d)
    also have "\<dots> = pow2 53 / 2" by (simp only: x53)
    also have "\<dots> = of_int (2 ^ 52)" by (simp add: pow2_def)
    finally show ?thesis by blast
  qed
  then obtain k where k: "?x / pow2 (?e - 52) = of_int k" by blast
  have "of_int (roundHalfEven (?x / pow2 (?e - 52))) * pow2 (?e - 52)
          = of_int k * pow2 (?e - 52)"
    by (simp only: k roundHalfEven_int)
  also have "\<dots> = ?x / pow2 (?e - 52) * pow2 (?e - 52)"
    by (simp only: k)
  also have "\<dots> = ?x"
    using pow2_pos [of "?e - 52"] by simp
  finally have y: "of_int (roundHalfEven (?x / pow2 (?e - 52))) * pow2 (?e - 52) = ?x" .
  have "?x < pow2 1024"
  proof -
    have "?x \<le> pow2 53" by fact
    also have "\<dots> < pow2 1024" by (rule pow2_strict_mono) simp
    finally show ?thesis .
  qed
  then show ?thesis
    using x unfolding roundDouble_def Let_def
    by (simp add: m y)
qed

lemma double_of_int:
  assumes "\<bar>n\<bar> \<le> 2 ^ 53"
  shows "roundDouble (of_int n) = Num (of_int n)"
proof -
  consider "n = 0" | "0 < n" | "n < 0" by linarith
  then show ?thesis
  proof cases
    case 1
    then show ?thesis by (simp add: roundDouble_def)
  next
    case 2
    then show ?thesis using assms by (intro double_of_int_pos) simp_all
  next
    case 3
    then have p: "roundDouble (of_int (- n)) = Num (of_int (- n))"
      using assms by (intro double_of_int_pos) simp_all
    have "roundDouble (- x) = numberNegate (roundDouble x)" for x
      by (simp add: roundDouble_def Let_def)
    from this [of "of_int (- n)"] p show ?thesis by simp
  qed
qed

lemma double_of_numeral:
  "numeral k \<le> (9007199254740992 :: int) \<Longrightarrow> roundDouble (numeral k) = Num (numeral k)"
  "roundDouble 0 = Num 0"
  "roundDouble 1 = Num 1"
  using double_of_int [of "numeral k"] double_of_int [of 1]
  by (simp_all add: roundDouble_def)

text \<open>Sums and differences of integers are exact up to \<open>2^53\<close>.\<close>

lemma numberAdd_int:
  assumes "\<bar>a + b\<bar> \<le> 2 ^ 53"
  shows "numberAdd (Num (of_int a)) (Num (of_int b)) = Num (of_int (a + b))"
proof -
  have "numberAdd (Num (of_int a)) (Num (of_int b)) = roundDouble (of_int (a + b))"
    by (simp only: numberAdd.simps of_int_add)
  then show ?thesis by (simp only: double_of_int [OF assms])
qed

lemma numberSubtract_int:
  assumes "\<bar>a - b\<bar> \<le> 2 ^ 53"
  shows "numberSubtract (Num (of_int a)) (Num (of_int b)) = Num (of_int (a - b))"
proof -
  have "numberSubtract (Num (of_int a)) (Num (of_int b)) = roundDouble (of_int (a - b))"
    by (simp add: numberSubtract_def)
  then show ?thesis by (simp only: double_of_int [OF assms])
qed

lemma foldl_numberAdd_int:
  assumes "\<forall>k \<le> length ns. \<bar>a + sum_list (take k ns)\<bar> \<le> 2 ^ 53"
  shows "foldl numberAdd (Num (of_int a)) (map (\<lambda>n. Num (of_int n)) ns)
           = Num (of_int (a + sum_list ns))"
  using assms
proof (induction ns arbitrary: a)
  case Nil
  then show ?case by simp
next
  case (Cons n ns)
  have "\<bar>a + n\<bar> \<le> 2 ^ 53"
    using Cons.prems [THEN spec, of 1] by simp
  then have 1: "numberAdd (Num (of_int a)) (Num (of_int n)) = Num (of_int (a + n))"
    by (rule numberAdd_int)
  have 2: "\<forall>k \<le> length ns. \<bar>(a + n) + sum_list (take k ns)\<bar> \<le> 2 ^ 53"
  proof (intro allI impI)
    fix k assume "k \<le> length ns"
    then show "\<bar>(a + n) + sum_list (take k ns)\<bar> \<le> 2 ^ 53"
      using Cons.prems [THEN spec, of "Suc k"] by (simp add: add.assoc)
  qed
  have "foldl numberAdd (Num (of_int a)) (map (\<lambda>n. Num (of_int n)) (n # ns))
          = foldl numberAdd (numberAdd (Num (of_int a)) (Num (of_int n)))
              (map (\<lambda>n. Num (of_int n)) ns)"
    by (simp only: list.map foldl_Cons)
  also have "\<dots> = foldl numberAdd (Num (of_int (a + n))) (map (\<lambda>n. Num (of_int n)) ns)"
    by (simp only: 1)
  also have "\<dots> = Num (of_int ((a + n) + sum_list ns))"
    by (rule Cons.IH [OF 2])
  finally show ?case by (simp add: add.assoc)
qed

lemma arithmeticSum_int:
  assumes "\<forall>k \<le> length ns. \<bar>sum_list (take k ns)\<bar> \<le> 2 ^ 53"
  shows "arithmeticSum (map (\<lambda>n. Num (of_int n)) ns) = Num (of_int (sum_list ns))"
  using foldl_numberAdd_int [of ns 0] assms by (simp add: arithmeticSum_def)

section \<open>Grouping\<close>

lemma map_of_setProperty: "map_of (setProperty groups key v) = (map_of groups)(key \<mapsto> v)"
  by (induction groups key v rule: setProperty.induct) auto

lemma fst_setProperty:
  "map fst (setProperty groups key v) =
     (if key \<in> fst ` set groups then map fst groups else map fst groups @ [key])"
  by (induction groups key v rule: setProperty.induct) auto

lemma distinct_setProperty:
  "distinct (map fst groups) \<Longrightarrow> distinct (map fst (setProperty groups key v))"
  by (simp add: fst_setProperty)

lemma setProperty_twice:
  "setProperty (setProperty groups key v) key w = setProperty groups key w"
  by (induction groups key v rule: setProperty.induct) auto

lemma groupRecord_eq:
  "groupRecord groups r =
     (case map_of groups (groupKey r) of
        None \<Rightarrow> if groupKey r \<in> set protoKeys then Inl TypeError
                else Inr (setProperty groups (groupKey r) [r])
      | Some rs \<Rightarrow> Inr (setProperty groups (groupKey r) (rs @ [r])))"
  by (simp add: groupRecord_def getProperty_def Let_def map_of_setProperty setProperty_twice
           split: option.splits)

lemma groupRecord_map_of:
  assumes "groupRecord groups r = Inr groups1"
  shows "map_of groups1 k =
           (if groupKey r = k
            then Some ((case map_of groups k of None \<Rightarrow> [] | Some rs \<Rightarrow> rs) @ [r])
            else map_of groups k)"
  using assms
  by (auto simp: groupRecord_eq map_of_setProperty split: option.splits if_splits)

lemma groupRecord_distinct:
  assumes "groupRecord groups r = Inr groups1" "distinct (map fst groups)"
  shows "distinct (map fst groups1)"
  using assms
  by (auto simp: groupRecord_eq distinct_setProperty split: option.splits if_splits)

lemma groupAll_map_of:
  assumes "groupAll groups rs = Inr groups1"
  shows "map_of groups1 k =
           (case map_of groups k of
              None \<Rightarrow> if filter (\<lambda>r. groupKey r = k) rs = [] then None
                      else Some (filter (\<lambda>r. groupKey r = k) rs)
            | Some old \<Rightarrow> Some (old @ filter (\<lambda>r. groupKey r = k) rs))"
  using assms
proof (induction rs arbitrary: groups)
  case Nil
  then show ?case by (simp split: option.splits)
next
  case (Cons r rs)
  then obtain g where g: "groupRecord groups r = Inr g" and rest: "groupAll g rs = Inr groups1"
    by (auto split: sum.splits)
  show ?case
    using Cons.IH [OF rest] groupRecord_map_of [OF g, of k]
    by (auto split: option.splits)
qed

lemma groupAll_distinct:
  assumes "groupAll groups rs = Inr groups1" "distinct (map fst groups)"
  shows "distinct (map fst groups1)"
  using assms
proof (induction rs arbitrary: groups)
  case Nil
  then show ?case by simp
next
  case (Cons r rs)
  then obtain g where g: "groupRecord groups r = Inr g" and rest: "groupAll g rs = Inr groups1"
    by (auto split: sum.splits)
  show ?case
    using Cons.IH [OF rest] groupRecord_distinct [OF g] Cons.prems by simp
qed

text \<open>Each bucket holds the records of its key, in input order.\<close>

lemma groupAll_member:
  assumes "groupAll [] rs = Inr groups" "(k, g) \<in> set groups"
  shows "g = filter (\<lambda>r. groupKey r = k) rs"
proof -
  have "distinct (map fst groups)"
    using groupAll_distinct [OF assms(1)] by simp
  then have "map_of groups k = Some g"
    using assms(2) by simp
  then show ?thesis
    using groupAll_map_of [OF assms(1), of k] by (simp split: if_splits)
qed

text \<open>The grouping raises only on a key that names a property of \<^verbatim>\<open>Object.prototype\<close>.\<close>

lemma groupAll_error:
  "groupAll groups rs = Inl e \<Longrightarrow> \<exists>r \<in> set rs. groupKey r \<in> set protoKeys"
proof (induction rs arbitrary: groups)
  case Nil
  then show ?case by simp
next
  case (Cons r rs)
  then show ?case
    by (auto simp: groupRecord_eq split: sum.splits option.splits if_splits)
qed

lemma calculateMerges_returns:
  assumes "\<forall>r \<in> set records. groupKey r \<notin> set protoKeys"
  shows "\<exists>ps. calculateMerges tz records = Inr ps"
proof (cases "groupAll [] records")
  case (Inl e)
  from groupAll_error [OF this] assms show ?thesis by blast
next
  case (Inr groups)
  then show ?thesis by (simp add: calculateMerges_def)
qed

lemma set_objectValues: "set (objectValues groups) = snd ` set groups"
proof -
  let ?P = "\<lambda>(k :: string, v :: IRecord list). arrayIndex k \<noteq> None"
  have "set (objectValues groups) = snd ` ({x \<in> set groups. ?P x} \<union> {x \<in> set groups. \<not> ?P x})"
    by (simp add: objectValues_def image_Un case_prod_unfold)
  also have "{x \<in> set groups. ?P x} \<union> {x \<in> set groups. \<not> ?P x} = set groups"
    by blast
  finally show ?thesis .
qed

lemma objectValues_single: "objectValues [(k, g)] = [g]"
  by (simp add: objectValues_def)

lemma join_Cons: "ys \<noteq> [] \<Longrightarrow> join sep (x # ys) = x @ sep @ join sep ys"
  by (cases ys) auto

text \<open>
  The joined key determines the group keys among sequences of one length whose
  elements hold no \<^verbatim>\<open>|\<close>.
\<close>

lemma join_inj:
  assumes "length xs = length ys"
    and "\<forall>s \<in> set xs \<union> set ys. CHR ''|'' \<notin> set s"
    and "join ''|||'' xs = join ''|||'' ys"
  shows "xs = ys"
  using assms
proof (induction xs ys rule: list_induct2)
  case Nil
  then show ?case by simp
next
  case (Cons x xs y ys)
  show ?case
  proof (cases "xs = []")
    case True
    then show ?thesis using Cons by simp
  next
    case False
    then have ys: "ys \<noteq> []" using Cons.hyps by auto
    have eq: "x @ ''|||'' @ join ''|||'' xs = y @ ''|||'' @ join ''|||'' ys"
      using Cons.prems(2) False ys by (simp add: join_Cons)
    have tx: "takeWhile (\<lambda>c. c \<noteq> CHR ''|'') (x @ ''|||'' @ join ''|||'' xs) = x"
      using Cons.prems(1) by (subst takeWhile_append2) auto
    have ty: "takeWhile (\<lambda>c. c \<noteq> CHR ''|'') (y @ ''|||'' @ join ''|||'' ys) = y"
      using Cons.prems(1) by (subst takeWhile_append2) auto
    have xy: "x = y" using eq tx ty by simp
    then have "join ''|||'' xs = join ''|||'' ys" using eq by simp
    then have "xs = ys" using Cons.IH Cons.prems(1) by simp
    then show ?thesis using xy by simp
  qed
qed

section \<open>Run building\<close>

text \<open>A group appends to the proposals pushed before it and reads none of them.\<close>

lemma loopBody_append:
  "foldl (loopBody tz) (ps @ qs, cur) xs =
     (ps @ fst (foldl (loopBody tz) (qs, cur) xs), snd (foldl (loopBody tz) (qs, cur) xs))"
proof (induction xs arbitrary: qs cur)
  case Nil
  then show ?case by simp
next
  case (Cons x xs)
  show ?case
  proof (cases cur)
    case None
    then show ?thesis using Cons.IH by simp
  next
    case (Some c)
    then show ?thesis using Cons.IH [of qs] Cons.IH [of "qs @ [finalizeProposal c]"] by simp
  qed
qed

lemma pushLast_append: "pushLast (ps @ qs, cur) = ps @ pushLast (qs, cur)"
  by (cases cur) auto

lemma processGroup_append: "processGroup tz ps g = ps @ processGroup tz [] g"
proof -
  have "pushLast (foldl (loopBody tz) (ps @ [], None) xs)
          = ps @ pushLast (foldl (loopBody tz) ([], None) xs)" for xs
    unfolding loopBody_append [of tz ps "[]"]
    by (metis pushLast_append prod.collapse)
  then show ?thesis
    by (simp add: processGroup_def Let_def)
qed

lemma foldl_processGroup:
  "foldl (processGroup tz) ps vs = ps @ concat (map (processGroup tz []) vs)"
proof (induction vs arbitrary: ps)
  case Nil
  then show ?case by simp
next
  case (Cons v vs)
  show ?case
    using Cons.IH [of "processGroup tz ps v"] processGroup_append [of tz ps v] by simp
qed

text \<open>The invariant holds for a fresh proposal and is kept by a merge in start order.\<close>

lemma openRun_newProposal: "openRun (newProposal r)"
  by (simp add: openRun_def newProposal_def)

lemma openRun_merge:
  assumes "openRun c" "\<forall>a \<in> set (originalRecords c). start a \<le> start r"
  shows "openRun (merge c r)"
proof -
  have ne: "originalRecords c \<noteq> []" using assms(1) by (simp add: openRun_def)
  have "Max (end' ` set (originalRecords c @ [r])) = max (Max (end' ` set (originalRecords c))) (end' r)"
    using ne by (simp add: max.commute)
  moreover have "sorted (map start (originalRecords c @ [r]))"
    using assms by (auto simp: openRun_def sorted_append)
  ultimately show ?thesis
    using assms(1) ne by (simp add: openRun_def merge_def)
qed

lemma loopBody_emitted:
  assumes "sorted (map start xs)" "set xs \<subseteq> S"
    and "openRun c" "set (originalRecords c) \<subseteq> S"
    and "\<forall>a \<in> set (originalRecords c). \<forall>x \<in> set xs. start a \<le> start x"
    and "p \<in> set (pushLast (foldl (loopBody tz) (ps, Some c) xs))"
  shows "p \<in> set ps \<or> emitted S p"
  using assms
proof (induction xs arbitrary: ps c)
  case Nil
  then show ?case by (auto simp: emitted_def split: if_splits)
next
  case (Cons x xs)
  have sx: "sorted (map start xs)" and xsS: "set xs \<subseteq> S" and xS: "x \<in> S"
    and le: "\<forall>y \<in> set xs. start x \<le> start y"
    using Cons.prems(1,2) by auto
  show ?case
  proof (cases "isSequential c x \<and> isSameDay tz c x")
    case True
    have 1: "openRun (merge c x)"
      using openRun_merge [of c x] Cons.prems(3,5) by simp
    have 2: "set (originalRecords (merge c x)) \<subseteq> S"
      using Cons.prems(4) xS by (simp add: merge_def)
    have 3: "\<forall>a \<in> set (originalRecords (merge c x)). \<forall>y \<in> set xs. start a \<le> start y"
      using Cons.prems(5) le by (auto simp: merge_def)
    have "p \<in> set (pushLast (foldl (loopBody tz) (ps, Some (merge c x)) xs))"
      using Cons.prems(6) True by simp
    from Cons.IH [OF sx xsS 1 2 3 this] show ?thesis .
  next
    case False
    let ?ps = "if length (recordsToDelete c) > 0 then ps @ [finalizeProposal c] else ps"
    have 1: "openRun (newProposal x)" by (rule openRun_newProposal)
    have 2: "set (originalRecords (newProposal x)) \<subseteq> S"
      using xS by (simp add: newProposal_def)
    have 3: "\<forall>a \<in> set (originalRecords (newProposal x)). \<forall>y \<in> set xs. start a \<le> start y"
      using le by (simp add: newProposal_def)
    have "p \<in> set (pushLast (foldl (loopBody tz) (?ps, Some (newProposal x)) xs))"
      using Cons.prems(6) False by simp
    from Cons.IH [OF sx xsS 1 2 3 this] have "p \<in> set ?ps \<or> emitted S p" .
    then show ?thesis
      using Cons.prems(3,4) by (auto simp: emitted_def split: if_splits)
  qed
qed

lemma processGroup_emitted:
  assumes "p \<in> set (processGroup tz [] g)"
  shows "emitted (set g) p"
proof (cases "sort_key start g")
  case Nil
  then show ?thesis using assms by (simp add: processGroup_def)
next
  case (Cons x xs)
  have srt: "sorted (map start (x # xs))"
    using sorted_sort_key [of start g] Cons by simp
  have sub: "set (x # xs) = set g"
    using set_sort [of start g] Cons by simp
  have p: "p \<in> set (pushLast (foldl (loopBody tz) ([], Some (newProposal x)) xs))"
    using assms Cons by (simp add: processGroup_def)
  have "p \<in> set [] \<or> emitted (set g) p"
  proof (rule loopBody_emitted [OF _ _ openRun_newProposal _ _ p])
    show "sorted (map start xs)" using srt by simp
    show "set xs \<subseteq> set g" using sub by auto
    show "set (originalRecords (newProposal x)) \<subseteq> set g" using sub by (auto simp: newProposal_def)
    show "\<forall>a\<in>set (originalRecords (newProposal x)). \<forall>y\<in>set xs. start a \<le> start y"
      using srt by (simp add: newProposal_def)
  qed
  then show ?thesis by simp
qed

lemma calculateMerges_group:
  assumes "calculateMerges tz records = Inr ps" "p \<in> set ps"
  shows "\<exists>k. p \<in> set (processGroup tz [] (filter (\<lambda>r. groupKey r = k) records))"
proof -
  obtain groups where g: "groupAll [] records = Inr groups"
    and ps: "ps = foldl (processGroup tz) [] (objectValues groups)"
    using assms(1) by (auto simp: calculateMerges_def split: sum.splits)
  from assms(2) obtain v where v: "v \<in> set (objectValues groups)" and p: "p \<in> set (processGroup tz [] v)"
    unfolding ps foldl_processGroup by auto
  from v obtain k where "(k, v) \<in> set groups"
    by (auto simp: set_objectValues)
  then have "v = filter (\<lambda>r. groupKey r = k) records"
    by (rule groupAll_member [OF g])
  with p show ?thesis by auto
qed

lemma calculateMerges_emitted:
  assumes "calculateMerges tz records = Inr ps" "p \<in> set ps"
  shows "\<exists>k. emitted {r \<in> set records. groupKey r = k} p"
proof -
  from calculateMerges_group [OF assms] obtain k
    where "p \<in> set (processGroup tz [] (filter (\<lambda>r. groupKey r = k) records))" by auto
  from processGroup_emitted [OF this] show ?thesis by auto
qed

text \<open>Finalization changes the validation field alone.\<close>

lemma finalizeProposal_fields:
  "baseRecordId (finalizeProposal c) = baseRecordId c"
  "newStart (finalizeProposal c) = newStart c"
  "newEnd (finalizeProposal c) = newEnd c"
  "recordsToDelete (finalizeProposal c) = recordsToDelete c"
  "originalRecords (finalizeProposal c) = originalRecords c"
  by (simp_all add: finalizeProposal_def Let_def)

lemma finalizeProposal_validation:
  "validation c = None \<Longrightarrow>
   validation (finalizeProposal c) =
     (if \<forall>r \<in> set (originalRecords c). duration r \<noteq> None
      then Some \<lparr>originalSum =
                   arithmeticSum (map (\<lambda>r. durationOrZero (duration r)) (originalRecords c)),
                 newDuration =
                   numberSubtract (Num (of_int (newEnd c))) (Num (of_int (newStart c))),
                 isValid = True\<rparr>
      else None)"
  by (simp add: finalizeProposal_def Let_def arithmeticSum_def foldl_map list_all_iff)

text \<open>A duration that is present and not \<^verbatim>\<open>NaN\<close> counts as itself.\<close>

lemma durationOrZero_Some: "d \<noteq> NaN \<Longrightarrow> durationOrZero (Some d) = d"
  by (cases d) simp_all

lemma sorted_hd_Min:
  assumes "sorted (map f xs)" "xs \<noteq> []"
  shows "f (hd xs) = Min (f ` set xs)"
proof -
  obtain y ys where xs: "xs = y # ys" using assms(2) by (cases xs) auto
  have "\<forall>z \<in> set ys. f y \<le> f z" using assms(1) xs by auto
  then have "Min (insert (f y) (f ` set ys)) = f y"
    by (intro Min_eqI) auto
  then show ?thesis using xs by simp
qed

section \<open>Isolated groups\<close>


lemma isolated_nth:
  "isolated tz g \<longleftrightarrow>
     (\<forall>i j. i < length g \<and> j < length g \<and> i \<noteq> j \<longrightarrow> \<not> continuous tz (g ! i) (g ! j))"
proof
  assume iso: "isolated tz g"
  show "\<forall>i j. i < length g \<and> j < length g \<and> i \<noteq> j \<longrightarrow> \<not> continuous tz (g ! i) (g ! j)"
  proof (intro allI impI)
    fix i j assume ij: "i < length g \<and> j < length g \<and> i \<noteq> j"
    then consider "i < j" | "j < i" by linarith
    then show "\<not> continuous tz (g ! i) (g ! j)"
    proof cases
      case 1
      then show ?thesis using iso ij by (auto simp: isolated_def sorted_wrt_iff_nth_less)
    next
      case 2
      then show ?thesis using iso ij by (auto simp: isolated_def sorted_wrt_iff_nth_less)
    qed
  qed
next
  assume "\<forall>i j. i < length g \<and> j < length g \<and> i \<noteq> j \<longrightarrow> \<not> continuous tz (g ! i) (g ! j)"
  then show "isolated tz g"
    by (auto simp: isolated_def sorted_wrt_iff_nth_less)
qed






section \<open>Inputs of two records\<close>

lemma merge_newProposal: "merge (newProposal r1) r2 = mergedPair r1 r2"
  by (simp add: merge_def newProposal_def mergedPair_def)

lemma groupAll_pair:
  assumes "groupKey r1 = groupKey r2" "groupKey r1 \<notin> set protoKeys"
  shows "groupAll [] [r1, r2] = Inr [(groupKey r1, [r1, r2])]"
  using assms by (simp add: groupRecord_eq)

lemma sort_key_pair:
  assumes "start r1 \<le> start r2" "records = [r1, r2] \<or> (records = [r2, r1] \<and> start r1 \<noteq> start r2)"
  shows "sort_key start records = [r1, r2]"
  using assms by auto

lemma calculateMerges_pair:
  assumes "groupKey r1 = groupKey r2" "groupKey r1 \<notin> set protoKeys" "start r1 \<le> start r2"
    and "records = [r1, r2] \<or> (records = [r2, r1] \<and> start r1 \<noteq> start r2)"
  shows "calculateMerges tz records = Inr (pushLast (loopBody tz ([], Some (newProposal r1)) r2))"
    and "calculateMerges0 records = Inr (pushLast0 (loopBody0 ([], Some (newProposal r1)) r2))"
proof -
  have g: "\<exists>g. groupAll [] records = Inr [(groupKey r1, g)] \<and> sort_key start g = [r1, r2]"
  proof (cases "records = [r1, r2]")
    case True
    then show ?thesis
      using groupAll_pair [OF assms(1,2)] sort_key_pair [OF assms(3), of "[r1, r2]"] by simp
  next
    case False
    then have r: "records = [r2, r1]" and ne: "start r1 \<noteq> start r2" using assms(4) by auto
    show ?thesis
      using groupAll_pair [of r2 r1] assms(1,2) sort_key_pair [OF assms(3), of "[r2, r1]"] ne r
      by simp
  qed
  then obtain g where g1: "groupAll [] records = Inr [(groupKey r1, g)]"
    and g2: "sort_key start g = [r1, r2]" by auto
  show "calculateMerges tz records = Inr (pushLast (loopBody tz ([], Some (newProposal r1)) r2))"
    by (simp add: calculateMerges_def g1 objectValues_single processGroup_def g2)
  show "calculateMerges0 records = Inr (pushLast0 (loopBody0 ([], Some (newProposal r1)) r2))"
    by (simp add: calculateMerges0_def g1 objectValues_single processGroup0_def g2)
qed

lemma pair_step:
  "isSequential (newProposal r1) r2 \<and> isSameDay tz (newProposal r1) r2 \<Longrightarrow>
     pushLast (loopBody tz ([], Some (newProposal r1)) r2) = [finalizeProposal (mergedPair r1 r2)]"
  "\<not> (isSequential (newProposal r1) r2 \<and> isSameDay tz (newProposal r1) r2) \<Longrightarrow>
     pushLast (loopBody tz ([], Some (newProposal r1)) r2) = []"
  "\<bar>start r2 - end' r1\<bar> < 1000 \<Longrightarrow>
     pushLast0 (loopBody0 ([], Some (newProposal r1)) r2) = [mergedPair r1 r2]"
  "\<not> \<bar>start r2 - end' r1\<bar> < 1000 \<Longrightarrow>
     pushLast0 (loopBody0 ([], Some (newProposal r1)) r2) = []"
proof -
  have nd: "recordsToDelete (newProposal r) = []" for r by (simp add: newProposal_def)
  have md: "recordsToDelete (mergedPair r1 r2) \<noteq> []" by (simp add: mergedPair_def)
  have ne: "newEnd (newProposal r1) = end' r1" by (simp add: newProposal_def)
  show "isSequential (newProposal r1) r2 \<and> isSameDay tz (newProposal r1) r2 \<Longrightarrow>
     pushLast (loopBody tz ([], Some (newProposal r1)) r2) = [finalizeProposal (mergedPair r1 r2)]"
    using md by (simp add: merge_newProposal)
  show "\<not> (isSequential (newProposal r1) r2 \<and> isSameDay tz (newProposal r1) r2) \<Longrightarrow>
     pushLast (loopBody tz ([], Some (newProposal r1)) r2) = []"
    using nd by auto
  show "\<bar>start r2 - end' r1\<bar> < 1000 \<Longrightarrow>
     pushLast0 (loopBody0 ([], Some (newProposal r1)) r2) = [mergedPair r1 r2]"
    using md by (simp add: merge_newProposal ne)
  show "\<not> \<bar>start r2 - end' r1\<bar> < 1000 \<Longrightarrow>
     pushLast0 (loopBody0 ([], Some (newProposal r1)) r2) = []"
    using nd by (simp add: ne)
qed

text \<open>
  An input of two records of one group whose key the grouping accepts, the first one
  in start order: at a gap of 999 units the two are merged into one proposal, at a gap
  of 1000 units or more they are not.
\<close>

lemma pair_tolerance:
  assumes "groupKey r1 = groupKey r2" "groupKey r1 \<notin> set protoKeys" "start r1 \<le> start r2"
    and "records = [r1, r2] \<or> (records = [r2, r1] \<and> start r1 \<noteq> start r2)"
  shows "(start r2 - end' r1 = 999 \<and> toDateString tz (start r1) = toDateString tz (start r2) \<longrightarrow>
            (\<exists>p. calculateMerges tz records = Inr [p] \<and> baseRecordId p = id' r1 \<and>
                 newStart p = start r1 \<and> newEnd p = max (end' r1) (end' r2) \<and>
                 recordsToDelete p = [id' r2] \<and> originalRecords p = [r1, r2])) \<and>
         (start r2 - end' r1 = 999 \<longrightarrow> calculateMerges0 records = Inr [mergedPair r1 r2]) \<and>
         (start r2 - end' r1 \<ge> 1000 \<longrightarrow>
            calculateMerges tz records = Inr [] \<and> calculateMerges0 records = Inr [])"
proof -
  note pair = calculateMerges_pair [OF assms]
  have seq: "isSequential (newProposal r1) r2 \<longleftrightarrow> \<bar>start r2 - end' r1\<bar> < 1000"
    by (simp add: isSequential_def newProposal_def)
  have day: "isSameDay tz (newProposal r1) r2 \<longleftrightarrow>
               toDateString tz (start r1) = toDateString tz (start r2)"
    by (simp add: isSameDay_def newProposal_def)
  have 1: "\<exists>p. calculateMerges tz records = Inr [p] \<and> baseRecordId p = id' r1 \<and>
                 newStart p = start r1 \<and> newEnd p = max (end' r1) (end' r2) \<and>
                 recordsToDelete p = [id' r2] \<and> originalRecords p = [r1, r2]"
    if "start r2 - end' r1 = 999" "toDateString tz (start r1) = toDateString tz (start r2)"
  proof -
    have "isSequential (newProposal r1) r2 \<and> isSameDay tz (newProposal r1) r2"
      using that by (simp add: seq day)
    from pair_step(1) [OF this]
    have "calculateMerges tz records = Inr [finalizeProposal (mergedPair r1 r2)]"
      by (simp only: pair(1))
    then show ?thesis
      by (simp add: finalizeProposal_fields) (simp add: mergedPair_def)
  qed
  have 2: "calculateMerges0 records = Inr [mergedPair r1 r2]" if "start r2 - end' r1 = 999"
  proof -
    have "\<bar>start r2 - end' r1\<bar> < 1000" using that by simp
    from pair_step(3) [OF this] show ?thesis by (simp only: pair(2))
  qed
  have 3: "calculateMerges tz records = Inr []" if "start r2 - end' r1 \<ge> 1000"
  proof -
    have "\<not> (isSequential (newProposal r1) r2 \<and> isSameDay tz (newProposal r1) r2)"
      using that by (simp add: seq)
    from pair_step(2) [OF this] show ?thesis by (simp only: pair(1))
  qed
  have 4: "calculateMerges0 records = Inr []" if "start r2 - end' r1 \<ge> 1000"
  proof -
    have "\<not> \<bar>start r2 - end' r1\<bar> < 1000" using that by simp
    from pair_step(4) [OF this] show ?thesis by (simp only: pair(2))
  qed
  show ?thesis using 1 2 3 4 by blast
qed

section \<open>The concrete inputs evaluated\<close>

lemma rec_fields:
  "id' recA = ''A''" "start recA = 600000" "end' recA = 900000"
  "duration recA = Some (Num 300000)"
  "id' recB = ''B''" "start recB = 900500" "end' recB = 1200000"
  "duration recB = Some (Num 299500)"
  "id' recC = ''C''" "start recC = 5000000" "end' recC = 5300000" "duration recC = None"
  "id' recD = ''D''" "start recD = 600000" "end' recD = 900000" "duration recD = None"
  "id' recE = ''E''" "start recE = 2000000" "end' recE = 2300000" "duration recE = None"
  by (simp_all add: recA_def recB_def recC_def recD_def recE_def)

lemma rec_keys:
  "groupKey recA = ''X''" "groupKey recB = ''X''" "groupKey recC = ''X''"
  "groupKey recD = ''Y''" "groupKey recE = ''Y''"
  by (simp_all add: groupKey_def recA_def recB_def recC_def recD_def recE_def)

lemma example_groups:
  "groupAll [] example = Inr [(''X'', [recC, recA, recB]), (''Y'', [recD, recE])]"
  by (simp add: example_def groupRecord_eq rec_keys protoKeys_def)

lemma example_values:
  "objectValues [(''X'', [recC, recA, recB]), (''Y'', [recD, recE])]
     = [[recC, recA, recB], [recD, recE]]"
  by (simp add: objectValues_def arrayIndex_def isDigit_def)

lemma example_groupX: "processGroup utc [] [recC, recA, recB] = [propAB]"
  by (simp add: processGroup_def rec_fields newProposal_def merge_def isSequential_def
        isSameDay_def toDateString_def utc_def finalizeProposal_def propAB_def valAB_def Let_def
        numberSubtract_def double_of_numeral)

lemma example_groupY: "processGroup utc ps [recD, recE] = ps"
  by (simp add: processGroup_def rec_fields newProposal_def isSequential_def)

lemma example_run: "calculateMerges utc example = Inr [propAB]"
  by (simp add: calculateMerges_def example_groups example_values example_groupX example_groupY)


lemma adjacent_run: "calculateMerges utc adjacent = Inr [propAB]"
proof -
  have k: "groupKey recF = ''Y''" "start recF = 900200" "end' recF = 900400"
    by (simp_all add: groupKey_def recF_def)
  have g: "groupAll [] adjacent = Inr [(''X'', [recA, recB]), (''Y'', [recF])]"
    by (simp add: adjacent_def groupRecord_eq rec_keys k protoKeys_def)
  have v: "objectValues [(''X'', [recA, recB]), (''Y'', [recF])] = [[recA, recB], [recF]]"
    by (simp add: objectValues_def arrayIndex_def isDigit_def)
  have x: "processGroup utc [] [recA, recB] = [propAB]"
    by (simp add: processGroup_def rec_fields newProposal_def merge_def isSequential_def
          isSameDay_def toDateString_def utc_def finalizeProposal_def propAB_def valAB_def
          Let_def numberSubtract_def double_of_numeral)
  have y: "processGroup utc ps [recF] = ps" for ps
    by (simp add: processGroup_def newProposal_def)
  show ?thesis
    by (simp add: calculateMerges_def g v x y)
qed

lemma propAB_fields:
  "baseRecordId propAB = ''A''" "newStart propAB = 600000" "newEnd propAB = 1200000"
  "recordsToDelete propAB = [''B'']" "originalRecords propAB = [recA, recB]"
  "validation propAB = Some valAB"
  by (simp_all add: propAB_def)

section \<open>Properties of the planner\<close>

text \<open>
  The planner returns a list of proposals unless the grouping raises; every statement
  about the proposals it returns is about a result \<open>Inr ps\<close>.
\<close>

text \<open>
  C1. For every proposal that \<open>calculateMerges\<close> returns, \<open>originalRecords\<close> is not
  empty, \<open>newStart\<close> is the least start among its \<open>originalRecords\<close> and \<open>newEnd\<close> is
  the greatest end among them.
\<close>

theorem bounds:
  assumes "calculateMerges tz records = Inr ps" "p \<in> set ps"
  shows "originalRecords p \<noteq> [] \<and>
         newStart p = Min (start ` set (originalRecords p)) \<and>
         newEnd p = Max (end' ` set (originalRecords p))"
proof -
  from calculateMerges_emitted [OF assms] obtain c
    where c: "openRun c" and p: "p = finalizeProposal c"
    by (auto simp: emitted_def)
  have "start (hd (originalRecords c)) = Min (start ` set (originalRecords c))"
    using c by (intro sorted_hd_Min) (simp_all add: openRun_def)
  then show ?thesis
    using c by (simp add: p finalizeProposal_fields openRun_def)
qed

theorem bounds_witness:
  "calculateMerges utc example = Inr [propAB] \<and> propAB \<in> set [propAB] \<and>
   originalRecords propAB \<noteq> [] \<and>
   newStart propAB = Min (start ` set (originalRecords propAB)) \<and>
   newEnd propAB = Max (end' ` set (originalRecords propAB))"
  using example_run bounds [OF example_run, of propAB] by simp



text \<open>
  C3. For every proposal that \<open>calculateMerges\<close> returns, \<open>recordsToDelete\<close> has one
  entry fewer than \<open>originalRecords\<close>, and \<open>baseRecordId\<close> together with
  \<open>recordsToDelete\<close> are exactly the ids of \<open>originalRecords\<close>.
\<close>

theorem conservation:
  assumes "calculateMerges tz records = Inr ps" "p \<in> set ps"
  shows "length (recordsToDelete p) + 1 = length (originalRecords p) \<and>
         insert (baseRecordId p) (set (recordsToDelete p)) = id' ` set (originalRecords p)"
proof -
  from calculateMerges_emitted [OF assms] obtain c
    where c: "openRun c" and p: "p = finalizeProposal c"
    by (auto simp: emitted_def)
  obtain x xs where xs: "originalRecords c = x # xs"
    using c by (cases "originalRecords c") (auto simp: openRun_def)
  show ?thesis
    using c xs by (simp add: p finalizeProposal_fields openRun_def)
qed

theorem conservation_witness:
  "calculateMerges utc example = Inr [propAB] \<and> propAB \<in> set [propAB] \<and>
   length (recordsToDelete propAB) + 1 = length (originalRecords propAB) \<and>
   insert (baseRecordId propAB) (set (recordsToDelete propAB))
     = id' ` set (originalRecords propAB)"
  using example_run conservation [OF example_run, of propAB] by simp

text \<open>
  C4. Two records of one group, on the same day, the second starting 999 units after
  the end of the first, are to be merged into one proposal. With the group key
  \<^verbatim>\<open>constructor\<close> they are not: the read \<^verbatim>\<open>groups[key]\<close> finds the inherited
  \<^verbatim>\<open>Object.prototype.constructor\<close>, no bucket is created, and the push raises a
  \<^verbatim>\<open>TypeError\<close>, in both variants of \<^verbatim>\<open>calculateMerges\<close>. For every key that names no
  property of \<^verbatim>\<open>Object.prototype\<close> the boundary is as claimed (lemma \<open>pair_tolerance\<close>).
\<close>

theorem tolerance_prototype_key:
  "groupKeys recT1 = [''constructor''] \<and> groupKeys recT2 = [''constructor''] \<and>
   start recT1 \<le> start recT2 \<and> start recT2 - end' recT1 = 999 \<and>
   toDateString utc (start recT1) = toDateString utc (start recT2) \<and>
   calculateMerges utc [recT1, recT2] = Inl TypeError \<and>
   calculateMerges0 [recT1, recT2] = Inl TypeError"
  by (simp add: recT1_def recT2_def toDateString_def utc_def calculateMerges_def
        calculateMerges0_def groupRecord_eq groupKey_def protoKeys_def)

text \<open>
  C5, as amended. Two records whose group keys join to different keys are never in the
  \<open>originalRecords\<close> of one returned proposal, however close in time they are; this
  covers every two records with different group keys of the same length, none of which
  holds the character \<^verbatim>\<open>|\<close>.
\<close>

theorem grouping_by_joined_key:
  assumes "calculateMerges tz records = Inr ps"
    and "groupKey r1 \<noteq> groupKey r2 \<or>
         (groupKeys r1 \<noteq> groupKeys r2 \<and> length (groupKeys r1) = length (groupKeys r2) \<and>
          (\<forall>s \<in> set (groupKeys r1) \<union> set (groupKeys r2). CHR ''|'' \<notin> set s))"
  shows "\<not> (\<exists>p \<in> set ps. r1 \<in> set (originalRecords p) \<and> r2 \<in> set (originalRecords p))"
proof
  assume "\<exists>p \<in> set ps. r1 \<in> set (originalRecords p) \<and> r2 \<in> set (originalRecords p)"
  then obtain p where p: "p \<in> set ps"
    and r: "r1 \<in> set (originalRecords p)" "r2 \<in> set (originalRecords p)" by auto
  from calculateMerges_emitted [OF assms(1) p] obtain c k
    where c: "set (originalRecords c) \<subseteq> {r \<in> set records. groupKey r = k}"
      and pc: "p = finalizeProposal c"
    by (auto simp: emitted_def)
  have same: "groupKey r1 = groupKey r2"
    using r c by (auto simp: pc finalizeProposal_fields)
  have "groupKeys r1 = groupKeys r2"
    if "length (groupKeys r1) = length (groupKeys r2)"
      "\<forall>s \<in> set (groupKeys r1) \<union> set (groupKeys r2). CHR ''|'' \<notin> set s"
    using that same by (intro join_inj) (simp_all add: groupKey_def)
  with same assms(2) show False by blast
qed

theorem grouping_by_joined_key_witness:
  "calculateMerges utc adjacent = Inr [propAB] \<and> groupKey recA \<noteq> groupKey recF \<and>
   groupKeys recA \<noteq> groupKeys recF \<and> length (groupKeys recA) = length (groupKeys recF) \<and>
   \<bar>start recF - end' recA\<bar> < 1000 \<and>
   toDateString utc (start recA) = toDateString utc (start recF) \<and>
   recA \<in> set (originalRecords propAB) \<and> recF \<notin> set (originalRecords propAB)"
proof -
  have h: "groupKey recA \<noteq> groupKey recF" "groupKeys recA \<noteq> groupKeys recF"
    "length (groupKeys recA) = length (groupKeys recF)"
    "\<bar>start recF - end' recA\<bar> < 1000"
    "toDateString utc (start recA) = toDateString utc (start recF)"
    by (simp_all add: groupKey_def recA_def recF_def toDateString_def utc_def)
  have a: "recA \<in> set (originalRecords propAB)"
    by (simp add: propAB_fields(5))
  from grouping_by_joined_key [OF adjacent_run, of recA recF] h(1)
  have "\<not> (recA \<in> set (originalRecords propAB) \<and> recF \<in> set (originalRecords propAB))"
    by simp
  with a have "recF \<notin> set (originalRecords propAB)" by (simp only: simp_thms)
  with h a adjacent_run show ?thesis by (simp only: simp_thms)
qed

text \<open>
  C5 as stated fails: the group keys of \<open>K1\<close> and \<open>K2\<close> differ in both positions, and
  the two records are merged into one proposal, since both sequences join to the key
  \<^verbatim>\<open>a||||b\<close>.
\<close>

theorem grouping_counterexample:
  "groupKeys recK1 ! 0 \<noteq> groupKeys recK2 ! 0 \<and> groupKeys recK1 ! 1 \<noteq> groupKeys recK2 ! 1 \<and>
   calculateMerges utc [recK1, recK2] = Inr [mergedPair recK1 recK2] \<and>
   originalRecords (mergedPair recK1 recK2) = [recK1, recK2]"
proof -
  have k: "groupKey recK1 = groupKey recK2" "groupKey recK1 \<notin> set protoKeys"
    "start recK1 \<le> start recK2"
    by (simp_all add: groupKey_def protoKeys_def recK1_def recK2_def)
  have s: "isSequential (newProposal recK1) recK2 \<and> isSameDay utc (newProposal recK1) recK2"
    by (simp add: isSequential_def isSameDay_def toDateString_def utc_def newProposal_def
          recK1_def recK2_def)
  have f: "finalizeProposal (mergedPair recK1 recK2) = mergedPair recK1 recK2"
    by (simp add: finalizeProposal_def mergedPair_def recK1_def Let_def)
  have "calculateMerges utc [recK1, recK2] = Inr [mergedPair recK1 recK2]"
    using calculateMerges_pair(1) [OF k, of "[recK1, recK2]" utc] pair_step(1) [OF s] f
    by simp
  then show ?thesis
    by (simp add: mergedPair_def) (simp add: recK1_def recK2_def)
qed

text \<open>
  C6, as amended. In the open state, a record that starts before the current
  \<open>newEnd\<close> is sequential exactly when it starts less than 1000 units before it; such
  a record is merged into the run (given the same local day where the same-day check
  applies), and a record that starts 1000 units or more before \<open>newEnd\<close> is not merged
  but opens a new run.
\<close>

theorem overlap_absorbed:
  assumes "start r < newEnd c"
  shows "(isSequential c r \<longleftrightarrow> newEnd c - start r < 1000) \<and>
         (newEnd c - start r < 1000 \<and> isSameDay tz c r \<longrightarrow>
            loopBody tz (ps, Some c) r = (ps, Some (merge c r))) \<and>
         (newEnd c - start r < 1000 \<longrightarrow> loopBody0 (ps, Some c) r = (ps, Some (merge c r))) \<and>
         (newEnd c - start r \<ge> 1000 \<longrightarrow>
            snd (loopBody tz (ps, Some c) r) = Some (newProposal r) \<and>
            snd (loopBody0 (ps, Some c) r) = Some (newProposal r))"
  using assms by (auto simp: isSequential_def)

theorem overlap_absorbed_witness:
  "start recS < newEnd (newProposal recA) \<and>
   newEnd (newProposal recA) - start recS < 1000 \<and>
   isSameDay utc (newProposal recA) recS \<and>
   isSequential (newProposal recA) recS \<and>
   loopBody utc ([], Some (newProposal recA)) recS
     = ([], Some (merge (newProposal recA) recS)) \<and>
   loopBody0 ([], Some (newProposal recA)) recS
     = ([], Some (merge (newProposal recA) recS))"
proof -
  have h: "start recS < newEnd (newProposal recA)"
    "newEnd (newProposal recA) - start recS < 1000"
    "isSameDay utc (newProposal recA) recS"
    by (simp_all add: newProposal_def isSameDay_def toDateString_def utc_def recA_def recS_def)
  note r = overlap_absorbed [OF h(1), of utc "[]"]
  have 1: "isSequential (newProposal recA) recS"
    using r h(2) by (simp only: simp_thms)
  have 2: "loopBody utc ([], Some (newProposal recA)) recS
             = ([], Some (merge (newProposal recA) recS))"
    using r h(2,3) by (simp only: simp_thms)
  have 3: "loopBody0 ([], Some (newProposal recA)) recS
             = ([], Some (merge (newProposal recA) recS))"
    using r h(2) by (simp only: simp_thms)
  show ?thesis using h 1 2 3 by (simp only: simp_thms)
qed

text \<open>
  C6 as stated fails: \<open>O\<close> starts before the \<open>newEnd\<close> of the run opened by \<open>A\<close>, on the
  same day, yet it is not sequential and the loop opens a new run for it; the two
  records yield no proposal.
\<close>

theorem overlap_counterexample:
  "start recO < newEnd (newProposal recA) \<and> isSameDay utc (newProposal recA) recO \<and>
   \<not> isSequential (newProposal recA) recO \<and>
   loopBody utc ([], Some (newProposal recA)) recO = ([], Some (newProposal recO)) \<and>
   loopBody0 ([], Some (newProposal recA)) recO = ([], Some (newProposal recO)) \<and>
   calculateMerges utc [recA, recO] = Inr []"
proof -
  have h: "start recO < newEnd (newProposal recA)" "isSameDay utc (newProposal recA) recO"
    "\<not> isSequential (newProposal recA) recO" "recordsToDelete (newProposal recA) = []"
    "\<not> \<bar>start recO - newEnd (newProposal recA)\<bar> < 1000"
    by (simp_all add: newProposal_def isSameDay_def isSequential_def toDateString_def utc_def
          recA_def recO_def)
  have k: "groupKey recA = groupKey recO" "groupKey recA \<notin> set protoKeys"
    "start recA \<le> start recO"
    by (simp_all add: groupKey_def protoKeys_def recA_def recO_def)
  have n: "\<not> (isSequential (newProposal recA) recO \<and> isSameDay utc (newProposal recA) recO)"
    using h(3) by simp
  have "calculateMerges utc [recA, recO] = Inr []"
    using calculateMerges_pair(1) [OF k, of "[recA, recO]" utc] pair_step(2) [OF n] by simp
  then show ?thesis using h by simp
qed

text \<open>
  C7, as amended. Let \<open>r1\<close> and \<open>r2\<close> be the two records of the input, with the same
  joined group key, which names no property of \<^verbatim>\<open>Object.prototype\<close>, \<open>r1\<close> starting at
  23:59:59.500 of local day \<open>d\<close> and \<open>r2\<close> 1000 ms later, at 00:00:00.500 of local day
  \<open>d + 1\<close>. With
  the same-day check \<open>calculateMerges\<close> returns no proposal. Without it, the one proposal
  that merges them is returned when the end of \<open>r1\<close> is less than 1000 ms away from
  the start of \<open>r2\<close>, and no proposal otherwise.
\<close>

theorem same_day_boundary:
  assumes "groupKey r1 = groupKey r2" "groupKey r1 \<notin> set protoKeys"
    and "records = [r1, r2] \<or> records = [r2, r1]"
    and "\<bar>start r1\<bar> \<le> 8640000000000000" "\<bar>start r2\<bar> \<le> 8640000000000000"
    and "start r1 + tz (start r1) = d * 86400000 + 86399500"
    and "start r2 + tz (start r2) = (d + 1) * 86400000 + 500"
    and "start r2 = start r1 + 1000"
  shows "calculateMerges tz records = Inr [] \<and>
         (\<bar>start r2 - end' r1\<bar> < 1000 \<longrightarrow> calculateMerges0 records = Inr [mergedPair r1 r2]) \<and>
         (\<bar>start r2 - end' r1\<bar> \<ge> 1000 \<longrightarrow> calculateMerges0 records = Inr [])"
proof -
  have le: "start r1 \<le> start r2" and ne: "start r1 \<noteq> start r2" using assms(8) by simp_all
  have ord: "records = [r1, r2] \<or> (records = [r2, r1] \<and> start r1 \<noteq> start r2)"
    using assms(3) ne by blast
  note pair = calculateMerges_pair [OF assms(1,2) le ord]
  have d1: "(d * 86400000 + 86399500) div 86400000 = d" by simp
  have d2: "((d + 1) * 86400000 + 500) div 86400000 = d + 1" by simp
  have "toDateString tz (start r1) = Some d" "toDateString tz (start r2) = Some (d + 1)"
    using assms(4,5) d1 d2 by (simp_all add: toDateString_def assms(6,7))
  then have "\<not> (isSequential (newProposal r1) r2 \<and> isSameDay tz (newProposal r1) r2)"
    by (simp add: isSameDay_def newProposal_def)
  from pair_step(2) [OF this] have 1: "calculateMerges tz records = Inr []"
    by (simp only: pair(1))
  have 2: "calculateMerges0 records = Inr [mergedPair r1 r2]" if "\<bar>start r2 - end' r1\<bar> < 1000"
  proof -
    have "\<bar>start r2 - end' r1\<bar> < 1000" using that by simp
    from pair_step(3) [OF this] show ?thesis by (simp only: pair(2))
  qed
  have 3: "calculateMerges0 records = Inr []" if "\<bar>start r2 - end' r1\<bar> \<ge> 1000"
  proof -
    have "\<not> \<bar>start r2 - end' r1\<bar> < 1000" using that by simp
    from pair_step(4) [OF this] show ?thesis by (simp only: pair(2))
  qed
  show ?thesis using 1 2 3 by blast
qed

theorem same_day_boundary_witness:
  "groupKey recN1 = groupKey recM2 \<and> groupKey recN1 \<notin> set protoKeys \<and>
   start recN1 + utc (start recN1) = 0 * 86400000 + 86399500 \<and>
   start recM2 + utc (start recM2) = (0 + 1) * 86400000 + 500 \<and>
   start recM2 = start recN1 + 1000 \<and> \<bar>start recM2 - end' recN1\<bar> < 1000 \<and>
   calculateMerges utc [recN1, recM2] = Inr [] \<and>
   calculateMerges0 [recN1, recM2] = Inr [mergedPair recN1 recM2]"
proof -
  have h: "groupKey recN1 = groupKey recM2" "groupKey recN1 \<notin> set protoKeys"
    "[recN1, recM2] = [recN1, recM2] \<or> [recN1, recM2] = [recM2, recN1]"
    "\<bar>start recN1\<bar> \<le> 8640000000000000" "\<bar>start recM2\<bar> \<le> 8640000000000000"
    "start recN1 + utc (start recN1) = 0 * 86400000 + 86399500"
    "start recM2 + utc (start recM2) = (0 + 1) * 86400000 + 500"
    "start recM2 = start recN1 + 1000"
    by (simp_all add: groupKey_def protoKeys_def utc_def recN1_def recM2_def)
  have g: "\<bar>start recM2 - end' recN1\<bar> < 1000"
    by (simp add: recN1_def recM2_def)
  note r = same_day_boundary [OF h]
  have 1: "calculateMerges utc [recN1, recM2] = Inr []"
    using r by (simp only: simp_thms)
  have 2: "calculateMerges0 [recN1, recM2] = Inr [mergedPair recN1 recM2]"
    using r g by (simp only: simp_thms)
  show ?thesis using h(1,2,6,7,8) g 1 2 by (simp only: simp_thms)
qed

text \<open>
  C7 as stated fails: \<open>M1\<close> starts at 23:59:59.500 of day 0 and \<open>M2\<close> at 00:00:00.500
  of day 1, in one group, and the variant without the same-day check does not merge
  them, since \<open>M2\<close> starts 1799.5 s before the end of \<open>M1\<close>.
\<close>

theorem same_day_counterexample:
  "groupKeys recM1 = groupKeys recM2 \<and>
   start recM1 = 86399500 \<and> start recM2 = 86400500 \<and>
   calculateMerges0 [recM1, recM2] = Inr []"
proof -
  have k: "groupKey recM1 = groupKey recM2" "groupKey recM1 \<notin> set protoKeys"
    "start recM1 \<le> start recM2"
    by (simp_all add: groupKey_def protoKeys_def recM1_def recM2_def)
  have n: "\<not> \<bar>start recM2 - end' recM1\<bar> < 1000"
    by (simp add: recM1_def recM2_def)
  have "calculateMerges0 [recM1, recM2] = Inr []"
    using calculateMerges_pair(2) [OF k, of "[recM1, recM2]"] pair_step(4) [OF n] by simp
  then show ?thesis by (simp add: recM1_def recM2_def)
qed

text \<open>
  C8, as amended. A proposal that \<open>calculateMerges\<close> returns carries a validation
  exactly when no duration of its \<open>originalRecords\<close> is undefined. When present,
  \<open>originalSum\<close> is the arithmetic sum of the durations with every \<^verbatim>\<open>NaN\<close> duration
  counted as 0, which is the arithmetic sum of the durations when none of them is
  \<^verbatim>\<open>NaN\<close>, and \<open>newDuration\<close> is \<open>newEnd - newStart\<close>, both in the arithmetic of the
  Number type. They are the exact sum and the exact difference for integer durations
  whose partial sums stay within \<open>2^53\<close> in magnitude, and for a difference within
  \<open>2^53\<close>.
\<close>

theorem validation_presence:
  assumes "calculateMerges tz records = Inr ps" "p \<in> set ps"
  shows "(validation p \<noteq> None \<longleftrightarrow> (\<forall>r \<in> set (originalRecords p). duration r \<noteq> None)) \<and>
         (\<forall>v. validation p = Some v \<longrightarrow>
            originalSum v
              = arithmeticSum (map (\<lambda>r. durationOrZero (duration r)) (originalRecords p)) \<and>
            newDuration v
              = numberSubtract (Num (of_int (newEnd p))) (Num (of_int (newStart p)))) \<and>
         (\<forall>ds. map duration (originalRecords p) = map Some ds \<and> NaN \<notin> set ds \<longrightarrow>
            (\<exists>v. validation p = Some v \<and> originalSum v = arithmeticSum ds)) \<and>
         (\<forall>ns. map duration (originalRecords p) = map (\<lambda>n. Some (Num (of_int n))) ns \<and>
               (\<forall>k \<le> length ns. \<bar>sum_list (take k ns)\<bar> \<le> 2 ^ 53) \<longrightarrow>
            (\<exists>v. validation p = Some v \<and> originalSum v = Num (of_int (sum_list ns)))) \<and>
         (\<forall>v. validation p = Some v \<and> \<bar>newEnd p - newStart p\<bar> \<le> 2 ^ 53 \<longrightarrow>
            newDuration v = Num (of_int (newEnd p - newStart p)))"
proof -
  from calculateMerges_emitted [OF assms] obtain c
    where c: "openRun c" and p: "p = finalizeProposal c"
    by (auto simp: emitted_def)
  have vc: "validation c = None" using c by (simp add: openRun_def)
  let ?sum = "arithmeticSum (map (\<lambda>r. durationOrZero (duration r)) (originalRecords p))"
  have 1: "validation p \<noteq> None \<longleftrightarrow> (\<forall>r \<in> set (originalRecords p). duration r \<noteq> None)"
    by (simp add: p finalizeProposal_fields finalizeProposal_validation [OF vc])
  have 2: "originalSum v = ?sum \<and>
           newDuration v = numberSubtract (Num (of_int (newEnd p))) (Num (of_int (newStart p)))"
    if "validation p = Some v" for v
    using that
    by (auto simp add: p finalizeProposal_fields finalizeProposal_validation [OF vc]
          split: if_splits)
  have present: "\<exists>v. validation p = Some v"
    if "map duration (originalRecords p) = map f xs" "\<And>x. f x \<noteq> None" for f and xs :: "'a list"
  proof -
    have "duration r \<noteq> None" if "r \<in> set (originalRecords p)" for r
    proof -
      have "duration r \<in> set (map duration (originalRecords p))" using that by simp
      then have "duration r \<in> set (map f xs)" by (simp only: \<open>map duration (originalRecords p) = map f xs\<close>)
      then show ?thesis using \<open>\<And>x. f x \<noteq> None\<close> by auto
    qed
    then show ?thesis using 1 by auto
  qed
  have 3: "\<exists>v. validation p = Some v \<and> originalSum v = arithmeticSum ds"
    if ds: "map duration (originalRecords p) = map Some ds" "NaN \<notin> set ds" for ds
  proof -
    have "map (\<lambda>r. durationOrZero (duration r)) (originalRecords p)
            = map durationOrZero (map duration (originalRecords p))"
      by (simp add: comp_def)
    also have "\<dots> = map (\<lambda>d. durationOrZero (Some d)) ds"
      by (simp only: ds(1)) (simp add: comp_def)
    also have "\<dots> = ds"
    proof (rule map_idI)
      fix d assume "d \<in> set ds"
      then have "d \<noteq> NaN" using ds(2) by auto
      then show "durationOrZero (Some d) = d" by (rule durationOrZero_Some)
    qed
    finally have s: "?sum = arithmeticSum ds" by simp
    from present [OF ds(1)] obtain v where "validation p = Some v" by auto
    then show ?thesis using 2 [of v] s by auto
  qed
  have 4: "\<exists>v. validation p = Some v \<and> originalSum v = Num (of_int (sum_list ns))"
    if ns: "map duration (originalRecords p) = map (\<lambda>n. Some (Num (of_int n))) ns"
      "\<forall>k \<le> length ns. \<bar>sum_list (take k ns)\<bar> \<le> 2 ^ 53" for ns
  proof -
    have "map (\<lambda>r. durationOrZero (duration r)) (originalRecords p)
            = map durationOrZero (map duration (originalRecords p))"
      by (simp add: comp_def)
    also have "\<dots> = map (\<lambda>n. Num (of_int n)) ns"
      by (simp only: ns(1)) (simp add: comp_def)
    finally have "?sum = Num (of_int (sum_list ns))"
      using arithmeticSum_int [OF ns(2)] by simp
    moreover from present [OF ns(1)] obtain v where "validation p = Some v" by auto
    ultimately show ?thesis using 2 [of v] by auto
  qed
  have 5: "newDuration v = Num (of_int (newEnd p - newStart p))"
    if "validation p = Some v" "\<bar>newEnd p - newStart p\<bar> \<le> 2 ^ 53" for v
    using 2 [OF that(1)] numberSubtract_int [OF that(2)] by simp
  show ?thesis using 1 2 3 4 5 by blast
qed

theorem validation_presence_witness:
  "calculateMerges utc example = Inr [propAB] \<and> propAB \<in> set [propAB] \<and>
   map duration (originalRecords propAB) = map Some [Num 300000, Num 299500] \<and>
   NaN \<notin> set [Num 300000, Num 299500] \<and>
   validation propAB = Some valAB \<and>
   originalSum valAB = arithmeticSum [Num 300000, Num 299500] \<and>
   originalSum valAB = Num (of_int (sum_list [300000, 299500])) \<and>
   \<bar>newEnd propAB - newStart propAB\<bar> \<le> 2 ^ 53 \<and>
   newDuration valAB = Num (of_int (newEnd propAB - newStart propAB))"
proof -
  have d: "map duration (originalRecords propAB) = map Some [Num 300000, Num 299500]"
    "NaN \<notin> set [Num 300000, Num 299500]"
    by (simp_all add: propAB_fields rec_fields)
  have n: "map duration (originalRecords propAB)
             = map (\<lambda>n. Some (Num (of_int n))) [300000, 299500]"
    "\<forall>k \<le> length [300000, 299500 :: int].
        \<bar>sum_list (take k [300000, 299500 :: int])\<bar> \<le> 2 ^ 53"
    by (simp_all add: propAB_fields rec_fields take_Cons split: nat.splits)
  have b: "\<bar>newEnd propAB - newStart propAB\<bar> \<le> 2 ^ 53"
    by (simp add: propAB_fields)
  have v: "validation propAB = Some valAB" by (rule propAB_fields(6))
  have m: "propAB \<in> set [propAB]" by simp
  note r = validation_presence [OF example_run m]
  note r3 = r [THEN conjunct2, THEN conjunct2, THEN conjunct1]
  note r4 = r [THEN conjunct2, THEN conjunct2, THEN conjunct2, THEN conjunct1]
  note r5 = r [THEN conjunct2, THEN conjunct2, THEN conjunct2, THEN conjunct2]
  from r3 [THEN spec, THEN mp, OF conjI, OF d]
  have s1: "originalSum valAB = arithmeticSum [Num 300000, Num 299500]"
    by (simp add: v)
  from r4 [THEN spec, THEN mp, OF conjI, OF n]
  have s2: "originalSum valAB = Num (of_int (sum_list [300000, 299500]))"
    by (simp add: v)
  from r5 [THEN spec, THEN mp, OF conjI, OF v b]
  have s3: "newDuration valAB = Num (of_int (newEnd propAB - newStart propAB))" .
  show ?thesis
    using example_run m d v b s3 s1 s2 by (intro conjI)
qed

text \<open>
  C8 as stated fails: \<open>V1\<close> has the duration \<^verbatim>\<open>NaN\<close>, which is a duration value of the
  planner's input, and \<open>V2\<close> the duration 7. The proposal that merges them carries a
  validation whose \<open>originalSum\<close> is 7, and the arithmetic sum of the two durations is
  \<^verbatim>\<open>NaN\<close>.
\<close>

theorem validation_counterexample:
  "duration recV1 = Some NaN \<and> duration recV2 = Some (Num 7) \<and>
   calculateMerges utc [recV1, recV2] = Inr [propV] \<and>
   originalRecords propV = [recV1, recV2] \<and> validation propV = Some valV \<and>
   originalSum valV = Num 7 \<and> arithmeticSum [NaN, Num 7] = NaN"
proof -
  have k: "groupKey recV1 = groupKey recV2" "groupKey recV1 \<notin> set protoKeys"
    "start recV1 \<le> start recV2"
    by (simp_all add: groupKey_def protoKeys_def recV1_def recV2_def)
  have s: "isSequential (newProposal recV1) recV2 \<and> isSameDay utc (newProposal recV1) recV2"
    by (simp add: isSequential_def isSameDay_def toDateString_def utc_def newProposal_def
          recV1_def recV2_def)
  have f: "duration recV1 = Some NaN" "duration recV2 = Some (Num 7)"
    "id' recV1 = ''V1''" "id' recV2 = ''V2''" "start recV1 = 1000" "end' recV1 = 2000"
    "end' recV2 = 3000"
    by (simp_all add: recV1_def recV2_def)
  have fp: "finalizeProposal (mergedPair recV1 recV2) = propV"
    by (simp add: finalizeProposal_def mergedPair_def f propV_def valV_def Let_def
          numberSubtract_def double_of_numeral)
  have "calculateMerges utc [recV1, recV2] = Inr [propV]"
    using calculateMerges_pair(1) [OF k, of "[recV1, recV2]" utc] pair_step(1) [OF s] fp
    by simp
  then show ?thesis
    by (simp add: f propV_def valV_def arithmeticSum_def)
qed

text \<open>
  C9. For every proposal that \<open>calculateMerges\<close> returns, \<open>originalRecords\<close> is sorted
  ascending by start, and \<open>baseRecordId\<close> is the id of its first record, which starts
  no later than any other of them.
\<close>

theorem sorted_base:
  assumes "calculateMerges tz records = Inr ps" "p \<in> set ps"
  shows "sorted (map start (originalRecords p)) \<and>
         originalRecords p \<noteq> [] \<and>
         baseRecordId p = id' (hd (originalRecords p)) \<and>
         (\<forall>r \<in> set (originalRecords p). start (hd (originalRecords p)) \<le> start r)"
proof -
  from calculateMerges_emitted [OF assms] obtain c
    where c: "openRun c" and p: "p = finalizeProposal c"
    by (auto simp: emitted_def)
  obtain x xs where xs: "originalRecords c = x # xs"
    using c by (cases "originalRecords c") (auto simp: openRun_def)
  show ?thesis
    using c xs by (auto simp add: p finalizeProposal_fields openRun_def)
qed

theorem sorted_base_witness:
  "calculateMerges utc example = Inr [propAB] \<and> propAB \<in> set [propAB] \<and>
   sorted (map start (originalRecords propAB)) \<and> originalRecords propAB \<noteq> [] \<and>
   baseRecordId propAB = id' (hd (originalRecords propAB)) \<and>
   start (hd (originalRecords propAB)) \<le> start recB"
  using example_run sorted_base [OF example_run, of propAB] by (simp add: propAB_fields(5))

text \<open>
  C10. Whenever a proposal that \<open>calculateMerges\<close> returns carries a validation, its
  \<open>isValid\<close> flag is true.
\<close>

theorem isValid_always:
  assumes "calculateMerges tz records = Inr ps" "p \<in> set ps" "validation p = Some v"
  shows "isValid v"
proof -
  from calculateMerges_emitted [OF assms(1,2)] obtain c
    where c: "openRun c" and p: "p = finalizeProposal c"
    by (auto simp: emitted_def)
  have v: "validation c = None" using c by (simp add: openRun_def)
  show ?thesis
    using assms(3) by (auto simp add: p finalizeProposal_validation [OF v] split: if_splits)
qed

theorem isValid_always_witness:
  "calculateMerges utc example = Inr [propAB] \<and> propAB \<in> set [propAB] \<and>
   validation propAB = Some valAB \<and> isValid valAB"
  using example_run isValid_always [OF example_run, of propAB valAB]
  by (simp add: propAB_fields(6))

end
